theory Spec2Isabelle
  imports Main "HOL-Library.Sublist"
begin

section \<open>The schema printer of cmd/internal/printer\<close>

text \<open>
  The printer (\<^verbatim>\<open>printer.go\<close>) walks the types of a schema graph and, for each type,
  builds a fields table and an edges table with the table-writer library, buffers the
  rendered text, indents it and writes it to the sink. The graph types
  (\<^verbatim>\<open>gen.Graph\<close>, \<^verbatim>\<open>gen.Type\<close>, \<^verbatim>\<open>gen.Field\<close>, \<^verbatim>\<open>gen.Edge\<close>) are declared in another
  package; the table writer is a third-party library. The model keeps the control flow
  of \<^verbatim>\<open>Print\<close> and \<^verbatim>\<open>node\<close> as written and takes the library's behaviour as a parameter.
  The pointers of the graph (to the types, the fields, the target type of an edge) are
  taken to be non-nil. The sink is the sequence of bytes written to it; \<^verbatim>\<open>node\<close> discards
  the result of the write, and so does the model.
\<close>

subsection \<open>Characters and Go values\<close>

abbreviation NL :: char where "NL \<equiv> CHR 0x0A"
abbreviation TAB :: char where "TAB \<equiv> CHR 0x09"

text \<open>
  The values that \<^verbatim>\<open>reflect\<close> hands to \<^verbatim>\<open>fmt.Sprint\<close>: a string, a bool, an int, a value
  with a \<^verbatim>\<open>String()\<close> method (given by the text that method returns), or a slice.
\<close>

datatype gvalue =
    GString string
  | GBool bool
  | GInt int
  | GStringer string
  | GSlice "gvalue list"

text \<open>\<^verbatim>\<open>strconv.FormatBool\<close>.\<close>

definition FormatBool :: "bool \<Rightarrow> string" where
  "FormatBool b = (if b then ''true'' else ''false'')"

text \<open>Decimal digits of a natural number, most significant first.\<close>

definition digit_char :: "nat \<Rightarrow> char" where
  "digit_char d = char_of (48 + d)"

function dec :: "nat \<Rightarrow> string" where
  "dec n = (if n < 10 then [digit_char n] else dec (n div 10) @ [digit_char (n mod 10)])"
  by pat_completeness auto
termination
  by (relation "measure (\<lambda>n. n)") auto

declare dec.simps [simp del]

text \<open>\<^verbatim>\<open>strconv.Itoa\<close>, which is how \<^verbatim>\<open>fmt\<close> prints an int under \<^verbatim>\<open>%v\<close>.\<close>

definition Itoa :: "int \<Rightarrow> string" where
  "Itoa i = (if i < 0 then CHR ''-'' # dec (nat (- i)) else dec (nat i))"

fun join :: "string \<Rightarrow> string list \<Rightarrow> string" where
  "join sep [] = []"
| "join sep [x] = x"
| "join sep (x # y # ys) = x @ sep @ join sep (y # ys)"

text \<open>
  \<^verbatim>\<open>fmt.Sprint\<close> of one operand: strings as they are, booleans as \<^verbatim>\<open>true\<close>/\<^verbatim>\<open>false\<close>,
  ints in decimal, a Stringer through its method, a slice as its elements between
  brackets, separated by spaces.
\<close>

fun Sprint :: "gvalue \<Rightarrow> string" where
  "Sprint (GString s) = s"
| "Sprint (GBool b) = (if b then ''true'' else ''false'')"
| "Sprint (GInt i) = Itoa i"
| "Sprint (GStringer s) = s"
| "Sprint (GSlice vs) = ''['' @ join '' '' (map Sprint vs) @ '']''"

text \<open>
  \<^verbatim>\<open>strconv.Atoi\<close> on a 64-bit platform: an optional sign, then one or more decimal
  digits, and the value within the range of \<^verbatim>\<open>int\<close>; anything else is an error (\<open>None\<close>).
\<close>

definition is_digit :: "char \<Rightarrow> bool" where
  "is_digit c = (48 \<le> (of_char c :: nat) \<and> (of_char c :: nat) \<le> 57)"

definition digits_value :: "string \<Rightarrow> nat" where
  "digits_value ds = foldl (\<lambda>n c. 10 * n + (of_char c - 48)) 0 ds"

definition Atoi :: "string \<Rightarrow> int option" where
  "Atoi s =
     (let (neg, ds) = (case s of
                         c # r \<Rightarrow> if c = CHR ''-'' then (True, r)
                                  else if c = CHR ''+'' then (False, r)
                                  else (False, s)
                       | [] \<Rightarrow> (False, s))
      in if ds = [] \<or> \<not> list_all is_digit ds then None
         else let v = (if neg then - int (digits_value ds) else int (digits_value ds))
              in if v < - (2 ^ 63) \<or> 2 ^ 63 - 1 < v then None else Some v)"

text \<open>
  \<^verbatim>\<open>strings.ReplaceAll(s, old, new)\<close> for a one-byte \<^verbatim>\<open>old\<close>: every occurrence of the byte is
  replaced, left to right.
\<close>

primrec ReplaceAll :: "string \<Rightarrow> char \<Rightarrow> string \<Rightarrow> string" where
  "ReplaceAll [] old new = []"
| "ReplaceAll (c # s) old new = (if c = old then new else [c]) @ ReplaceAll s old new"

subsection \<open>The schema graph\<close>

text \<open>
  Modelled from the spec: \<^verbatim>\<open>gen.Field\<close>, whose declaration is in package \<^verbatim>\<open>gen\<close>. The
  attributes are those the printer reads by name (section 3 of the specification: name,
  declared type, the flags, default and update-default presence, structure tag,
  validators) and the result of the comment accessor \<^verbatim>\<open>Comment()\<close>. The declared type and
  the validators are kept as Go values of any kind, since only their printed form is used.
\<close>

record gen_Field =
  Name :: string
  Type :: gvalue
  Unique :: bool
  Optional :: bool
  Nillable :: bool
  Default :: bool
  UpdateDefault :: bool
  Immutable :: bool
  StructTag :: string
  Validators :: gvalue
  Comment :: string

text \<open>
  Modelled from the spec: the relation kind of an edge (\<^verbatim>\<open>e.Rel.Type\<close>) and its string
  form \<^verbatim>\<open>String()\<close>; the specification gives \<^verbatim>\<open>O2M\<close> for one-to-many.
\<close>

datatype Rel = Unk | O2O | O2M | M2O | M2M

fun Rel_String :: "Rel \<Rightarrow> string" where
  "Rel_String O2O = ''O2O''"
| "Rel_String O2M = ''O2M''"
| "Rel_String M2O = ''M2O''"
| "Rel_String M2M = ''M2M''"
| "Rel_String Unk = ''Unknown''"

text \<open>
  Modelled from the spec: \<^verbatim>\<open>gen.Edge\<close>. \<open>Type_Name\<close> is the name of the type the edge
  points to (\<^verbatim>\<open>e.Type.Name\<close>; the printer reads nothing else through that pointer),
  \<open>IsInverse\<close> the result of the accessor \<^verbatim>\<open>IsInverse()\<close>, \<open>Inverse\<close> the name of the inverse
  edge (empty if none), \<open>Rel_Type\<close> the relation kind, \<open>Comment\<close> the result of \<^verbatim>\<open>Comment()\<close>.
\<close>

record gen_Edge =
  Name :: string
  Type_Name :: string
  IsInverse :: bool
  Inverse :: string
  Rel_Type :: Rel
  Unique :: bool
  Optional :: bool
  Comment :: string

text \<open>
  Modelled from the spec: \<^verbatim>\<open>gen.Type\<close> (a name, an optional identifier field, the declared
  fields and the edges, in order) and \<^verbatim>\<open>gen.Graph\<close> (the types, in order).
\<close>

record gen_Type =
  Name :: string
  ID :: "gen_Field option"
  Fields :: "gen_Field list"
  Edges :: "gen_Edge list"

record gen_Graph =
  Nodes :: "gen_Type list"

subsection \<open>The table writer\<close>

datatype Align = AlignLeft | AlignRight
datatype State = On | Off
datatype Style = StyleASCII

text \<open>
  A table as the printer configures and fills it: the header, the appended rows, and the
  options the printer sets (\<open>None\<close> or \<open>[]\<close> where the printer leaves the library's default).
  \<open>PerColumn\<close> is \<^verbatim>\<open>Row.Alignment.PerColumn\<close>: its entry at index \<open>c\<close> is the alignment
  configured for column \<open>c\<close>.
\<close>

record Table =
  HeaderPadding :: "(string \<times> string) option"
  HeaderAutoFormat :: "State option"
  Symbols :: "Style option"
  Header :: "string list"
  Rows :: "string list list"
  PerColumn :: "Align list"

text \<open>
  The library's behaviour, a parameter of the model: whether \<^verbatim>\<open>Append\<close> of a row to a table
  reports an error, and what \<^verbatim>\<open>Render\<close> of a table writes (\<open>None\<close>: it reports an error).
\<close>

record tablewriter =
  append_error :: "Table \<Rightarrow> string list \<Rightarrow> bool"
  render :: "Table \<Rightarrow> string option"

definition NewWriter :: Table where
  "NewWriter = \<lparr>HeaderPadding = None, HeaderAutoFormat = None, Symbols = None,
                 Header = [], Rows = [], PerColumn = []\<rparr>"

text \<open>The two options both tables are given, and the row alignment option.\<close>

definition Options_style :: "Table \<Rightarrow> Table" where
  "Options_style table =
     table\<lparr>HeaderPadding := Some ('' '', '' ''), HeaderAutoFormat := Some Off,
           Symbols := Some StyleASCII\<rparr>"

definition WithRowAlignmentConfig :: "Align list \<Rightarrow> Table \<Rightarrow> Table" where
  "WithRowAlignmentConfig alignment table = table\<lparr>PerColumn := alignment\<rparr>"

definition Append :: "tablewriter \<Rightarrow> Table \<Rightarrow> string list \<Rightarrow> Table option" where
  "Append lib table row =
     (if append_error lib table row then None
      else Some (table\<lparr>Rows := Rows table @ [row]\<rparr>))"

definition Render :: "tablewriter \<Rightarrow> Table \<Rightarrow> string option" where
  "Render lib table = render lib table"

subsection \<open>Building the fields table\<close>

text \<open>
  How a loop or a stage of \<^verbatim>\<open>node\<close> ends: with a panic, with an early \<^verbatim>\<open>return\<close> (nothing
  written to the sink), or by going on with a value.
\<close>

datatype 'a stage = Panicked | Returned | Continue 'a

definition header :: "string list" where
  "header = [''Field'', ''Type'', ''Unique'', ''Optional'', ''Nillable'', ''Default'',
             ''UpdateDefault'', ''Immutable'', ''StructTag'', ''Validators'', ''Comment'']"

text \<open>
  \<^verbatim>\<open>reflect.ValueOf(*f)\<close>: the struct's fields by name. \<^verbatim>\<open>Comment\<close> is a method, not a
  struct field.
\<close>

definition ValueOf :: "gen_Field \<Rightarrow> (string \<times> gvalue) list" where
  "ValueOf f =
     [(''Name'', GString (gen_Field.Name f)),
      (''Type'', gen_Field.Type f),
      (''Unique'', GBool (gen_Field.Unique f)),
      (''Optional'', GBool (gen_Field.Optional f)),
      (''Nillable'', GBool (gen_Field.Nillable f)),
      (''Default'', GBool (gen_Field.Default f)),
      (''UpdateDefault'', GBool (gen_Field.UpdateDefault f)),
      (''Immutable'', GBool (gen_Field.Immutable f)),
      (''StructTag'', GString (gen_Field.StructTag f)),
      (''Validators'', gen_Field.Validators f)]"

text \<open>
  \<^verbatim>\<open>Value.FieldByNameFunc\<close>: the field whose name satisfies \<open>match\<close>; the zero Value (\<open>None\<close>)
  when no field or more than one field does.
\<close>

definition FieldByNameFunc :: "(string \<times> gvalue) list \<Rightarrow> (string \<Rightarrow> bool) \<Rightarrow> gvalue option" where
  "FieldByNameFunc v match =
     (case filter (\<lambda>(name, x). match name) v of
        [(name, x)] \<Rightarrow> Some x
      | _ \<Rightarrow> None)"

text \<open>The alignment decision for one cell (lines 81 to 86).\<close>

definition cell_alignment :: "string \<Rightarrow> Align" where
  "cell_alignment s = (case Atoi s of Some n \<Rightarrow> AlignRight | None \<Rightarrow> AlignLeft)"

text \<open>
  The inner loop over the columns \<open>i = 0, ..., len(row) - 2\<close>, given as the list of the
  indices left to visit. \<^verbatim>\<open>field.Interface()\<close> panics on the zero Value.
\<close>

fun cells :: "(string \<times> gvalue) list \<Rightarrow> nat list \<Rightarrow> string list \<Rightarrow> Align list
              \<Rightarrow> (string list \<times> Align list) option" where
  "cells v [] row alignment = Some (row, alignment)"
| "cells v (i # is) row alignment =
     (case FieldByNameFunc v (\<lambda>name. name = ''Name'' \<and> i = 0 \<or> name = header ! i) of
        None \<Rightarrow> None
      | Some field \<Rightarrow>
          cells v is (row[i := Sprint field])
                (alignment @ [cell_alignment (Sprint field)]))"

text \<open>The outer loop over the identifier field and the declared fields (lines 72 to 98).\<close>

fun fields_loop :: "tablewriter \<Rightarrow> Table \<Rightarrow> Align list \<Rightarrow> gen_Field list
                    \<Rightarrow> (Table \<times> Align list) stage" where
  "fields_loop lib table alignment [] = Continue (table, alignment)"
| "fields_loop lib table alignment (f # fs) =
     (case cells (ValueOf f) [0 ..< length header - 1]
                 (replicate (length header) []) alignment of
        None \<Rightarrow> Panicked
      | Some (row, alignment') \<Rightarrow>
          (case Append lib table (row[length row - 1 := gen_Field.Comment f]) of
             None \<Rightarrow> Returned
           | Some table' \<Rightarrow>
               fields_loop lib (WithRowAlignmentConfig alignment' table') alignment' fs))"

text \<open>Lines 49 to 98: the fields table as it stands when \<^verbatim>\<open>Render\<close> is called.\<close>

definition fields_table :: "tablewriter \<Rightarrow> gen_Type \<Rightarrow> Table stage" where
  "fields_table lib t =
     (let table = (Options_style NewWriter)\<lparr>Header := header\<rparr>;
          id = (case gen_Type.ID t of None \<Rightarrow> [] | Some f \<Rightarrow> [f])
      in case fields_loop lib table [] (id @ gen_Type.Fields t) of
           Panicked \<Rightarrow> Panicked
         | Returned \<Rightarrow> Returned
         | Continue (table', alignment) \<Rightarrow> Continue table')"

subsection \<open>Building the edges table\<close>

definition edges_header :: "string list" where
  "edges_header = [''Edge'', ''Type'', ''Inverse'', ''BackRef'', ''Relation'', ''Unique'',
                   ''Optional'', ''Comment'']"

text \<open>The loop over the edges (lines 123 to 139), with the flag \<^verbatim>\<open>hasEdges\<close>.\<close>

fun edges_loop :: "tablewriter \<Rightarrow> Table \<Rightarrow> bool \<Rightarrow> gen_Edge list \<Rightarrow> (Table \<times> bool) stage" where
  "edges_loop lib table hasEdges [] = Continue (table, hasEdges)"
| "edges_loop lib table hasEdges (e # es) =
     (case Append lib table
             [gen_Edge.Name e,
              gen_Edge.Type_Name e,
              FormatBool (gen_Edge.IsInverse e),
              gen_Edge.Inverse e,
              Rel_String (gen_Edge.Rel_Type e),
              FormatBool (gen_Edge.Unique e),
              FormatBool (gen_Edge.Optional e),
              gen_Edge.Comment e] of
        None \<Rightarrow> Returned
      | Some table' \<Rightarrow> edges_loop lib table' True es)"

definition edges_table :: "tablewriter \<Rightarrow> gen_Type \<Rightarrow> (Table \<times> bool) stage" where
  "edges_table lib t =
     edges_loop lib ((Options_style NewWriter)\<lparr>Header := edges_header\<rparr>) False (gen_Type.Edges t)"

subsection \<open>One type, and the whole graph\<close>

text \<open>
  The text in the buffer \<^verbatim>\<open>b\<close> when line 147 is reached: the name line, the rendered fields
  table and, if the type has edges, the rendered edges table.
\<close>

definition node_buffer :: "tablewriter \<Rightarrow> gen_Type \<Rightarrow> string stage" where
  "node_buffer lib t =
     (case fields_table lib t of
        Panicked \<Rightarrow> Panicked
      | Returned \<Rightarrow> Returned
      | Continue table \<Rightarrow>
          (case Render lib table of
             None \<Rightarrow> Returned
           | Some fields_text \<Rightarrow>
               (case edges_table lib t of
                  Panicked \<Rightarrow> Panicked
                | Returned \<Rightarrow> Returned
                | Continue (table', hasEdges) \<Rightarrow>
                    if hasEdges
                    then (case Render lib table' of
                            None \<Rightarrow> Returned
                          | Some edges_text \<Rightarrow>
                              Continue (gen_Type.Name t @ [CHR '':'', NL] @ fields_text @ edges_text))
                    else Continue (gen_Type.Name t @ [CHR '':'', NL] @ fields_text))))"

text \<open>
  \<^verbatim>\<open>node\<close>: the sink is the text written to it so far; the result is the sink afterwards,
  or \<open>None\<close> if the call panics. Line 147 is the only write.
\<close>

definition node :: "tablewriter \<Rightarrow> string \<Rightarrow> gen_Type \<Rightarrow> string option" where
  "node lib p t =
     (case node_buffer lib t of
        Panicked \<Rightarrow> None
      | Returned \<Rightarrow> Some p
      | Continue b \<Rightarrow> Some (p @ ReplaceAll b NL [NL, TAB] @ [NL]))"

text \<open>\<^verbatim>\<open>Print\<close>: the loop over \<^verbatim>\<open>g.Nodes\<close>; a panic ends it.\<close>

fun Print_loop :: "tablewriter \<Rightarrow> string \<Rightarrow> gen_Type list \<Rightarrow> string option" where
  "Print_loop lib p [] = Some p"
| "Print_loop lib p (n # ns) =
     (case node lib p n of
        None \<Rightarrow> None
      | Some p' \<Rightarrow> Print_loop lib p' ns)"

definition Print :: "tablewriter \<Rightarrow> string \<Rightarrow> gen_Graph \<Rightarrow> string option" where
  "Print lib p g = Print_loop lib p (Nodes g)"

text \<open>\<^verbatim>\<open>Fprint\<close>.\<close>

definition Fprint :: "tablewriter \<Rightarrow> string \<Rightarrow> gen_Graph \<Rightarrow> string option" where
  "Fprint lib w g = Print lib w g"

subsection \<open>Notions used to state the properties\<close>

text \<open>
  The row of a field as the specification describes it: the name, then the attributes
  named by the header, each in its printed form, then the comment.
\<close>

definition field_cells :: "gen_Field \<Rightarrow> string list" where
  "field_cells f =
     [gen_Field.Name f, Sprint (gen_Field.Type f),
      FormatBool (gen_Field.Unique f), FormatBool (gen_Field.Optional f),
      FormatBool (gen_Field.Nillable f), FormatBool (gen_Field.Default f),
      FormatBool (gen_Field.UpdateDefault f), FormatBool (gen_Field.Immutable f),
      gen_Field.StructTag f, Sprint (gen_Field.Validators f)]"

definition field_row :: "gen_Field \<Rightarrow> string list" where
  "field_row f = field_cells f @ [gen_Field.Comment f]"

text \<open>The row of an edge as the specification describes it.\<close>

definition edge_row :: "gen_Edge \<Rightarrow> string list" where
  "edge_row e =
     [gen_Edge.Name e, gen_Edge.Type_Name e, FormatBool (gen_Edge.IsInverse e),
      gen_Edge.Inverse e, Rel_String (gen_Edge.Rel_Type e), FormatBool (gen_Edge.Unique e),
      FormatBool (gen_Edge.Optional e), gen_Edge.Comment e]"

text \<open>The fields that get a row: \<^verbatim>\<open>append(id, t.Fields...)\<close>.\<close>

definition row_source :: "gen_Type \<Rightarrow> gen_Field list" where
  "row_source t = (case gen_Type.ID t of None \<Rightarrow> [] | Some f \<Rightarrow> [f]) @ gen_Type.Fields t"

text \<open>The alignment decisions of a sequence of rows, ten for each row, in order.\<close>

definition decisions :: "gen_Field list \<Rightarrow> Align list" where
  "decisions fs = concat (map (\<lambda>f. map cell_alignment (field_cells f)) fs)"

text \<open>The two tables before their first row.\<close>

definition fields_table0 :: Table where
  "fields_table0 = (Options_style NewWriter)\<lparr>Header := header\<rparr>"

definition edges_table0 :: Table where
  "edges_table0 = (Options_style NewWriter)\<lparr>Header := edges_header\<rparr>"

text \<open>The alignment configured for column \<open>c\<close> of a table, if there is one.\<close>

definition column_alignment :: "Table \<Rightarrow> nat \<Rightarrow> Align option" where
  "column_alignment table c =
     (if c < length (PerColumn table) then Some (PerColumn table ! c) else None)"

text \<open>The bytes that \<^verbatim>\<open>node\<close> writes to the sink for a type: nothing if it returns early.\<close>

definition block :: "tablewriter \<Rightarrow> gen_Type \<Rightarrow> string" where
  "block lib t =
     (case node_buffer lib t of
        Continue b \<Rightarrow> ReplaceAll b NL [NL, TAB] @ [NL]
      | _ \<Rightarrow> [])"

text \<open>
  The lines of a text: each line is the text up to the next newline, without it; text
  after the last newline, if any, is a line too. \<open>cur\<close> is the line being read.
\<close>

primrec lines_acc :: "string \<Rightarrow> string \<Rightarrow> string list" where
  "lines_acc cur [] = (if cur = [] then [] else [cur])"
| "lines_acc cur (c # s) = (if c = NL then cur # lines_acc [] s else lines_acc (cur @ [c]) s)"

definition lines_of :: "string \<Rightarrow> string list" where
  "lines_of s = lines_acc [] s"

subsection \<open>Sample instances for evaluation\<close>

text \<open>
  A line-oriented writer used to evaluate the model at concrete inputs: \<^verbatim>\<open>Append\<close> reports
  an error once the table holds \<open>cap\<close> rows, and \<^verbatim>\<open>Render\<close> writes the header and each row
  on a line of its own, ended by a newline. It stands for the library only in that it
  writes whole lines.
\<close>

definition plain_line :: "string list \<Rightarrow> string" where
  "plain_line cs = ''|'' @ concat (map (\<lambda>c. '' '' @ c @ '' |'') cs) @ [NL]"

definition plain_render :: "Table \<Rightarrow> string option" where
  "plain_render table = Some (concat (map plain_line (Header table # Rows table)))"

definition capped_writer :: "nat \<Rightarrow> tablewriter" where
  "capped_writer cap =
     \<lparr>append_error = (\<lambda>table row. cap \<le> length (Rows table)), render = plain_render\<rparr>"

definition plain_writer :: tablewriter where
  "plain_writer = \<lparr>append_error = (\<lambda>table row. False), render = plain_render\<rparr>"

definition id_field :: gen_Field where
  "id_field = \<lparr>gen_Field.Name = ''id'', Type = GStringer ''int'', Unique = False,
                Optional = False, Nillable = False, Default = False, UpdateDefault = False,
                Immutable = False, StructTag = [], Validators = GInt 0, Comment = []\<rparr>"

definition name_field :: gen_Field where
  "name_field = \<lparr>gen_Field.Name = ''name'', Type = GStringer ''string'', Unique = False,
                  Optional = True, Nillable = False, Default = False, UpdateDefault = False,
                  Immutable = False, StructTag = ''42'', Validators = GInt 1,
                  Comment = ''full name''\<rparr>"

definition posts_edge :: gen_Edge where
  "posts_edge = \<lparr>gen_Edge.Name = ''posts'', Type_Name = ''Post'', IsInverse = False,
                  Inverse = [], Rel_Type = O2M, Unique = False, Optional = True,
                  Comment = []\<rparr>"

definition Empty :: gen_Type where
  "Empty = \<lparr>gen_Type.Name = ''Empty'', ID = None, Fields = [], Edges = []\<rparr>"

definition Solo :: gen_Type where
  "Solo = \<lparr>gen_Type.Name = ''Solo'', ID = Some id_field, Fields = [], Edges = []\<rparr>"

definition User :: gen_Type where
  "User = \<lparr>gen_Type.Name = ''User'', ID = Some id_field, Fields = [name_field],
            Edges = [posts_edge]\<rparr>"


definition User_table :: Table where
  "User_table = fields_table0
     \<lparr>Rows := [[''id'', ''int'', ''false'', ''false'', ''false'', ''false'', ''false'',
                 ''false'', [], ''0'', []],
                [''name'', ''string'', ''false'', ''true'', ''false'', ''false'', ''false'',
                 ''false'', ''42'', ''1'', ''full name'']],
      PerColumn := [AlignLeft, AlignLeft, AlignLeft, AlignLeft, AlignLeft, AlignLeft,
                    AlignLeft, AlignLeft, AlignLeft, AlignRight,
                    AlignLeft, AlignLeft, AlignLeft, AlignLeft, AlignLeft, AlignLeft,
                    AlignLeft, AlignLeft, AlignRight, AlignRight]\<rparr>"

text \<open>The header line of the fields table as the sample writer renders it.\<close>

definition header_line :: string where
  "header_line = ''| Field | Type | Unique | Optional | Nillable | Default | UpdateDefault | Immutable | StructTag | Validators | Comment |''"


section \<open>Properties of the model\<close>

subsection \<open>The row of a field\<close>

lemma upt_0_10: "[0 ..< 10] = [0, 1, 2, 3, 4, 5, 6, 7, 8, 9 :: nat]"
  by code_simp

lemma replicate_11: "replicate 11 x = [x, x, x, x, x, x, x, x, x, x, x]"
  by (simp add: numeral_eq_Suc)

lemma Sprint_GBool: "Sprint (GBool b) = FormatBool b"
  by (simp add: FormatBool_def)

text \<open>The reflection loop finds every column and never panics.\<close>

lemma cells_row:
  "cells (ValueOf f) [0 ..< length header - 1] (replicate (length header) []) alignment
     = Some (field_cells f @ [[]], alignment @ map cell_alignment (field_cells f))"
proof -
  have len: "length header = 11" by (simp add: header_def)
  show ?thesis
    unfolding len
    by (simp add: upt_0_10 replicate_11 FieldByNameFunc_def ValueOf_def header_def
          field_cells_def Sprint_GBool del: Sprint.simps(2))
qed

subsection \<open>The loop over the fields\<close>

lemma fields_loop_Cons:
  "fields_loop lib table alignment (f # fs) =
     (if append_error lib table (field_row f) then Returned
      else fields_loop lib
             (table\<lparr>Rows := Rows table @ [field_row f],
                    PerColumn := alignment @ map cell_alignment (field_cells f)\<rparr>)
             (alignment @ map cell_alignment (field_cells f)) fs)"
proof -
  have row: "(field_cells f @ [[]])[length (field_cells f @ [[]]) - 1 := gen_Field.Comment f]
               = field_row f"
    by (simp add: field_row_def field_cells_def)
  show ?thesis
    by (simp only: fields_loop.simps cells_row option.case prod.case row)
       (simp add: Append_def WithRowAlignmentConfig_def)
qed

lemma fields_loop_not_Panicked: "fields_loop lib table alignment fs \<noteq> Panicked"
proof (induction fs arbitrary: table alignment)
  case Nil
  show ?case by simp
next
  case (Cons f fs)
  show ?case unfolding fields_loop_Cons using Cons.IH by simp
qed

lemma fields_loop_Continue:
  "fields_loop lib table alignment fs = Continue (table', alignment') \<Longrightarrow>
     alignment' = alignment @ decisions fs \<and>
     table' = (if fs = [] then table
               else table\<lparr>Rows := Rows table @ map field_row fs, PerColumn := alignment'\<rparr>)"
proof (induction fs arbitrary: table alignment)
  case Nil
  then show ?case by (simp add: decisions_def)
next
  case (Cons f fs)
  from Cons.prems have
    rest: "fields_loop lib
             (table\<lparr>Rows := Rows table @ [field_row f],
                    PerColumn := alignment @ map cell_alignment (field_cells f)\<rparr>)
             (alignment @ map cell_alignment (field_cells f)) fs = Continue (table', alignment')"
    unfolding fields_loop_Cons by (simp_all split: if_splits)
  from Cons.IH [OF rest] show ?case
    by (cases "fs = []") (simp_all add: decisions_def)
qed

lemma fields_table_Continue:
  assumes "fields_table lib t = Continue table"
  shows "table = fields_table0\<lparr>Rows := map field_row (row_source t),
                                PerColumn := decisions (row_source t)\<rparr>"
proof -
  from assms obtain alignment where
    "fields_loop lib fields_table0 [] (row_source t) = Continue (table, alignment)"
    by (auto simp: fields_table_def fields_table0_def row_source_def Let_def split: stage.splits)
  from fields_loop_Continue [OF this] show ?thesis
    by (cases "row_source t = []")
       (simp_all add: decisions_def fields_table0_def NewWriter_def Options_style_def)
qed

lemma fields_table_not_Panicked: "fields_table lib t \<noteq> Panicked"
  using fields_loop_not_Panicked [of lib "(Options_style NewWriter)\<lparr>Header := header\<rparr>" "[]"]
  by (auto simp: fields_table_def Let_def split: stage.splits)

subsection \<open>The loop over the edges, and one type\<close>

lemma edges_loop_Cons:
  "edges_loop lib table hasEdges (e # es) =
     (if append_error lib table (edge_row e) then Returned
      else edges_loop lib (table\<lparr>Rows := Rows table @ [edge_row e]\<rparr>) True es)"
  by (simp add: Append_def edge_row_def)

lemma edges_loop_not_Panicked: "edges_loop lib table hasEdges es \<noteq> Panicked"
proof (induction es arbitrary: table hasEdges)
  case Nil
  show ?case by simp
next
  case (Cons e es)
  show ?case unfolding edges_loop_Cons using Cons.IH by simp
qed

lemma edges_loop_Continue:
  "edges_loop lib table hasEdges es = Continue (table', hasEdges') \<Longrightarrow>
     table' = table\<lparr>Rows := Rows table @ map edge_row es\<rparr> \<and>
     hasEdges' = (hasEdges \<or> es \<noteq> [])"
proof (induction es arbitrary: table hasEdges)
  case Nil
  then show ?case by simp
next
  case (Cons e es)
  from Cons.prems have
    rest: "edges_loop lib (table\<lparr>Rows := Rows table @ [edge_row e]\<rparr>) True es
             = Continue (table', hasEdges')"
    unfolding edges_loop_Cons by (simp_all split: if_splits)
  from Cons.IH [OF rest] show ?case by simp
qed

lemma edges_table_Continue:
  assumes "edges_table lib t = Continue (table, hasEdges)"
  shows "table = edges_table0\<lparr>Rows := map edge_row (gen_Type.Edges t)\<rparr> \<and>
         hasEdges = (gen_Type.Edges t \<noteq> [])"
  using edges_loop_Continue [of lib edges_table0 False "gen_Type.Edges t" table hasEdges] assms
  by (simp add: edges_table_def edges_table0_def NewWriter_def Options_style_def)

lemma edges_table_not_Panicked: "edges_table lib t \<noteq> Panicked"
  by (simp add: edges_table_def edges_loop_not_Panicked)

lemma node_buffer_not_Panicked: "node_buffer lib t \<noteq> Panicked"
  using fields_table_not_Panicked [of lib t] edges_table_not_Panicked [of lib t]
  by (auto simp: node_buffer_def split: stage.splits option.splits)

lemma node_buffer_Continue:
  assumes "node_buffer lib t = Continue b"
  shows "\<exists>ftext. fields_table lib t = Continue (fields_table0\<lparr>Rows := map field_row (row_source t),
                                PerColumn := decisions (row_source t)\<rparr>) \<and>
           Render lib (fields_table0\<lparr>Rows := map field_row (row_source t),
                                PerColumn := decisions (row_source t)\<rparr>) = Some ftext \<and>
           edges_table lib t = Continue (edges_table0\<lparr>Rows := map edge_row (gen_Type.Edges t)\<rparr>, gen_Type.Edges t \<noteq> []) \<and>
           (if gen_Type.Edges t = [] then b = gen_Type.Name t @ [CHR '':'', NL] @ ftext
            else \<exists>etext. Render lib (edges_table0\<lparr>Rows := map edge_row (gen_Type.Edges t)\<rparr>) = Some etext \<and>
                   b = gen_Type.Name t @ [CHR '':'', NL] @ ftext @ etext)"
proof -
  from assms obtain ftable where ft: "fields_table lib t = Continue ftable"
    by (auto simp: node_buffer_def split: stage.splits)
  from assms ft obtain ftext where fr: "Render lib ftable = Some ftext"
    by (auto simp: node_buffer_def split: option.splits)
  from assms ft fr obtain etable hasEdges where et: "edges_table lib t = Continue (etable, hasEdges)"
    by (auto simp: node_buffer_def split: stage.splits)
  note ft' = fields_table_Continue [OF ft]
  note et' = edges_table_Continue [OF et]
  from assms ft fr et have
    b: "if hasEdges then \<exists>etext. Render lib etable = Some etext \<and>
                   b = gen_Type.Name t @ [CHR '':'', NL] @ ftext @ etext
        else b = gen_Type.Name t @ [CHR '':'', NL] @ ftext"
    by (auto simp: node_buffer_def split: option.splits if_splits)
  show ?thesis
    using ft fr et b ft' et' by (cases "gen_Type.Edges t = []") auto
qed

lemma block_nonempty: "block lib t \<noteq> [] \<longleftrightarrow> (\<exists>b. node_buffer lib t = Continue b)"
  by (auto simp: block_def split: stage.splits)

lemma ReplaceAll_append: "ReplaceAll (a @ b) old new = ReplaceAll a old new @ ReplaceAll b old new"
  by (induction a) simp_all

subsection \<open>Writing to the sink\<close>

lemma node_block: "node lib p t = Some (p @ block lib t)"
  using node_buffer_not_Panicked [of lib t]
  by (simp add: node_def block_def split: stage.splits)

lemma Print_loop_blocks: "Print_loop lib p ts = Some (p @ concat (map (block lib) ts))"
  by (induction ts arbitrary: p) (simp_all add: node_block)

lemma block_empty_or_newline: "block lib t = [] \<or> (\<exists>a. block lib t = a @ [NL])"
  by (simp add: block_def split: stage.splits)

subsection \<open>Lines\<close>

lemma lines_acc_split:
  "lines_acc cur (a @ NL # b) = lines_acc cur (a @ [NL]) @ lines_acc [] b"
  by (induction a arbitrary: cur) simp_all

lemma lines_of_append:
  "a = [] \<or> (\<exists>a'. a = a' @ [NL]) \<Longrightarrow> lines_of (a @ b) = lines_of a @ lines_of b"
  using lines_acc_split [of "[]" _ b] by (auto simp: lines_of_def)

lemma lines_of_concat:
  "(\<And>b. b \<in> set bs \<Longrightarrow> b = [] \<or> (\<exists>a. b = a @ [NL])) \<Longrightarrow>
     lines_of (concat bs) = concat (map lines_of bs)"
proof (induction bs)
  case Nil
  show ?case by (simp add: lines_of_def)
next
  case (Cons b bs)
  have "lines_of (b @ concat bs) = lines_of b @ lines_of (concat bs)"
    by (rule lines_of_append) (simp add: Cons.prems)
  with Cons show ?case by simp
qed

lemma lines_acc_first:
  "cur \<noteq> [] \<Longrightarrow> lines_acc cur (x @ [NL]) \<noteq> [] \<and> hd (lines_acc cur (x @ [NL])) \<noteq> [] \<and>
     hd (hd (lines_acc cur (x @ [NL]))) = hd cur"
  by (induction x arbitrary: cur) simp_all

lemma lines_acc_tabbed:
  "l \<in> set (tl (lines_acc cur (ReplaceAll b NL [NL, TAB] @ [NL]))) \<Longrightarrow> l \<noteq> [] \<and> hd l = TAB"
proof (induction b arbitrary: cur)
  case Nil
  then show ?case by simp
next
  case (Cons c b)
  show ?case
  proof (cases "c = NL")
    case True
    let ?L = "lines_acc [TAB] (ReplaceAll b NL [NL, TAB] @ [NL])"
    from Cons.prems True have mem: "l \<in> set ?L" by simp
    from lines_acc_first [of "[TAB]" "ReplaceAll b NL [NL, TAB]"]
    have first: "?L \<noteq> []" "hd ?L \<noteq> []" "hd (hd ?L) = TAB" by simp_all
    from mem first(1) have "l = hd ?L \<or> l \<in> set (tl ?L)"
      by (cases ?L) auto
    then show ?thesis using first Cons.IH [of "[TAB]"] by auto
  next
    case False
    with Cons.prems have "l \<in> set (tl (lines_acc (cur @ [c]) (ReplaceAll b NL [NL, TAB] @ [NL])))"
      by simp
    then show ?thesis by (rule Cons.IH)
  qed
qed

lemma block_lines_tabbed:
  "l \<in> set (tl (lines_of (block lib t))) \<Longrightarrow> l \<noteq> [] \<and> hd l = TAB"
  using lines_acc_tabbed [of l "[]"]
  by (auto simp: block_def lines_of_def split: stage.splits)

lemma lines_acc_no_NL:
  "NL \<notin> set n \<Longrightarrow> lines_acc cur (n @ NL # rest) = (cur @ n) # lines_acc [] rest"
  by (induction n arbitrary: cur) auto

lemma ReplaceAll_absent: "old \<notin> set s \<Longrightarrow> ReplaceAll s old new = s"
  by (induction s) auto

lemma block_first_line:
  assumes "block lib t \<noteq> []" and "NL \<notin> set (gen_Type.Name t)"
  shows "hd (lines_of (block lib t)) = gen_Type.Name t @ '':''"
proof -
  from assms(1) obtain b where b: "node_buffer lib t = Continue b"
    by (auto simp: block_nonempty)
  from node_buffer_Continue [OF b] obtain rest where
    "b = (gen_Type.Name t @ '':'') @ NL # rest"
    by (cases "gen_Type.Edges t = []") auto
  then have eq: "block lib t =
      (gen_Type.Name t @ '':'') @ NL # (TAB # ReplaceAll rest NL [NL, TAB] @ [NL])"
    using b assms(2) by (simp add: block_def ReplaceAll_append ReplaceAll_absent)
  have "NL \<notin> set (gen_Type.Name t @ '':'')"
    using assms(2) by simp
  then have "lines_acc [] ((gen_Type.Name t @ '':'') @ NL # (TAB # ReplaceAll rest NL [NL, TAB] @ [NL]))
       = ([] @ (gen_Type.Name t @ '':'')) # lines_acc [] (TAB # ReplaceAll rest NL [NL, TAB] @ [NL])"
    by (rule lines_acc_no_NL)
  then show ?thesis
    unfolding lines_of_def eq by simp
qed

subsection \<open>The alignment list\<close>

lemma fields_loop_append:
  "fields_loop lib table alignment (fs @ gs) =
     (case fields_loop lib table alignment fs of
        Panicked \<Rightarrow> Panicked
      | Returned \<Rightarrow> Returned
      | Continue (table', alignment') \<Rightarrow> fields_loop lib table' alignment' gs)"
  by (induction fs arbitrary: table alignment)
     (simp_all add: fields_loop_Cons del: fields_loop.simps(2))

lemma decisions_Cons: "decisions (f # fs) = map cell_alignment (field_cells f) @ decisions fs"
  by (simp add: decisions_def)

lemma length_decisions: "length (decisions fs) = 10 * length fs"
  by (induction fs) (simp_all add: decisions_Cons field_cells_def decisions_def)

lemma decisions_nth:
  "c < 10 \<Longrightarrow> decisions (f # fs) ! c = cell_alignment (field_row f ! c)"
proof -
  assume c: "c < 10"
  have len: "length (field_cells f) = 10" by (simp add: field_cells_def)
  from c len have "decisions (f # fs) ! c = cell_alignment (field_cells f ! c)"
    by (simp add: decisions_Cons nth_append)
  moreover from c len have "field_row f ! c = field_cells f ! c"
    by (simp add: field_row_def nth_append)
  ultimately show ?thesis by simp
qed

subsection \<open>The end of a block, and the whole output\<close>

lemma ReplaceAll_snoc:
  "ReplaceAll (xs @ [x]) NL [NL, TAB] = ReplaceAll xs NL [NL, TAB] @ (if x = NL then [NL, TAB] else [x])"
  by (simp add: ReplaceAll_append)

lemma node_buffer_nonempty: "node_buffer lib t = Continue b \<Longrightarrow> b \<noteq> []"
  using node_buffer_Continue [of lib t b] by (cases "gen_Type.Edges t = []") auto

lemma Print_blocks: "Print lib p g = Some (p @ concat (map (block lib) (Nodes g)))"
  by (simp add: Print_def Print_loop_blocks)

subsection \<open>Boolean cells\<close>

lemma FormatBool_cases: "FormatBool b = ''true'' \<or> FormatBool b = ''false''"
  by (simp add: FormatBool_def)

lemma less_11_cases:
  "c < 11 \<Longrightarrow> c = 0 \<or> c = 1 \<or> c = 2 \<or> c = 3 \<or> c = 4 \<or> c = 5 \<or> c = 6 \<or> c = 7 \<or> c = 8 \<or> c = 9 \<or> c = (10::nat)"
  by arith

lemma less_8_cases:
  "c < 8 \<Longrightarrow> c = 0 \<or> c = 1 \<or> c = 2 \<or> c = 3 \<or> c = 4 \<or> c = 5 \<or> c = 6 \<or> c = (7::nat)"
  by arith

lemma field_row_boolean:
  assumes "c < length header"
    and "header ! c \<in> {''Unique'', ''Optional'', ''Nillable'', ''Default'', ''UpdateDefault'', ''Immutable''}"
  shows "field_row f ! c = ''true'' \<or> field_row f ! c = ''false''"
proof -
  from assms(1) have "c < 11" by (simp add: header_def)
  from less_11_cases [OF this] assms(2) show ?thesis
    using FormatBool_cases
    by (elim disjE) (simp_all add: header_def field_row_def field_cells_def)
qed

lemma edge_row_boolean:
  assumes "c < length edges_header"
    and "edges_header ! c \<in> {''Inverse'', ''Unique'', ''Optional''}"
  shows "edge_row e ! c = ''true'' \<or> edge_row e ! c = ''false''"
proof -
  from assms(1) have "c < 8" by (simp add: edges_header_def)
  from less_8_cases [OF this] assms(2) show ?thesis
    using FormatBool_cases
    by (elim disjE) (simp_all add: edges_header_def edge_row_def)
qed

section \<open>The claims\<close>








text \<open>
  The fields table of \<open>User\<close> has two rows. In column 8 (StructTag) the first row holds the
  empty string, which decides left, and the last row holds \<^verbatim>\<open>42\<close>, which decides right.
  The alignment configured for column 8 at the end is left: the first row's decision.
\<close>

theorem alignment_last_row_counterexample:
  "fields_table plain_writer User = Continue User_table \<and>
   length (Rows User_table) = 2 \<and>
   hd (Rows User_table) ! 8 = [] \<and> cell_alignment [] = AlignLeft \<and>
   last (Rows User_table) ! 8 = ''42'' \<and> cell_alignment ''42'' = AlignRight \<and>
   length (PerColumn User_table) = 20 \<and>
   column_alignment User_table 8 = Some AlignLeft"
  by code_simp

text \<open>
  C4 (as amended). In the fields table, after every appended row the per-column alignment
  configuration is set to the whole accumulated list of per-cell decisions of all the
  rows appended so far, ten for each row (right-aligned if the cell's stringified value
  parses as an integer, left otherwise). The list is never reset, so for each of the
  column positions 0 to 9 the configured alignment is the decision taken for the first
  row's cell. Here \<open>fs\<close> is any non-empty initial part of the rows of a type whose
  fields table is built without an error, and \<open>table\<close> is the table after the rows \<open>fs\<close>.
\<close>

theorem alignment_accumulates:
  assumes "fields_table lib t = Continue final" and "row_source t = fs @ gs" and "fs \<noteq> []"
  shows "\<exists>table alignment.
           fields_loop lib fields_table0 [] fs = Continue (table, alignment) \<and>
           Rows table = map field_row fs \<and>
           alignment = concat (map (\<lambda>f. map cell_alignment (butlast (field_row f))) fs) \<and>
           PerColumn table = alignment \<and>
           length (PerColumn table) = 10 * length fs \<and>
           (\<forall>c<10. column_alignment table c = Some (cell_alignment (hd (Rows table) ! c)))"
proof -
  from assms(1) obtain al where
    "fields_loop lib fields_table0 [] (fs @ gs) = Continue (final, al)"
    by (auto simp: fields_table_def fields_table0_def row_source_def [symmetric] assms(2) [symmetric]
             Let_def split: stage.splits)
  then obtain table alignment where
    loop: "fields_loop lib fields_table0 [] fs = Continue (table, alignment)"
    by (auto simp: fields_loop_append split: stage.splits)
  from fields_loop_Continue [OF loop] assms(3) have
    al: "alignment = decisions fs" and
    tb: "table = fields_table0\<lparr>Rows := Rows fields_table0 @ map field_row fs,
                                PerColumn := alignment\<rparr>"
    by simp_all
  have rows0: "Rows fields_table0 = []"
    by (simp add: fields_table0_def Options_style_def NewWriter_def)
  from assms(3) obtain f fs' where fs: "fs = f # fs'"
    by (cases fs) auto
  have butl: "\<And>g. butlast (field_row g) = field_cells g"
    by (simp add: field_row_def)
  show ?thesis
  proof (intro exI conjI allI impI)
    show "fields_loop lib fields_table0 [] fs = Continue (table, alignment)" by (rule loop)
    show "Rows table = map field_row fs" by (simp add: tb rows0)
    show "alignment = concat (map (\<lambda>f. map cell_alignment (butlast (field_row f))) fs)"
      by (simp add: al decisions_def butl)
    show "PerColumn table = alignment" by (simp add: tb)
    show "length (PerColumn table) = 10 * length fs"
      by (simp add: tb al length_decisions)
  next
    fix c :: nat
    assume c: "c < 10"
    have "c < length (PerColumn table)"
      using c by (simp add: tb al length_decisions fs)
    moreover have "PerColumn table ! c = cell_alignment (field_row f ! c)"
      using c by (simp add: tb al fs decisions_nth)
    moreover have "hd (Rows table) = field_row f"
      by (simp add: tb rows0 fs)
    ultimately show "column_alignment table c = Some (cell_alignment (hd (Rows table) ! c))"
      by (simp add: column_alignment_def)
  qed
qed

theorem alignment_accumulates_witness:
  "fields_table plain_writer User = Continue User_table \<and>
   row_source User = [id_field] @ [name_field] \<and> [id_field] \<noteq> [] \<and> (8::nat) < 10 \<and>
   (\<exists>table alignment.
      fields_loop plain_writer fields_table0 [] [id_field] = Continue (table, alignment) \<and>
      Rows table = map field_row [id_field] \<and>
      alignment = concat (map (\<lambda>f. map cell_alignment (butlast (field_row f))) [id_field]) \<and>
      PerColumn table = alignment \<and>
      length (PerColumn table) = 10 * length [id_field] \<and>
      column_alignment table 8 = Some (cell_alignment (hd (Rows table) ! 8)))"
proof -
  have h1: "fields_table plain_writer User = Continue User_table"
    by code_simp
  have h2: "row_source User = [id_field] @ [name_field]"
    by (simp add: row_source_def User_def)
  have h3: "[id_field] \<noteq> []"
    by simp
  have h4: "(8::nat) < 10"
    by simp
  from alignment_accumulates [OF h1 h2 h3] h1 h2 h3 h4 show ?thesis
    by blast
qed

text \<open>
  The block of the type \<open>Empty\<close> under the sample writer: after the last table line (the
  header line) and its newline the block holds a tab character, and then the final
  newline.
\<close>

theorem trailing_tab_counterexample:
  "gen_Type.Edges Empty = [] \<and>
   fields_table plain_writer Empty = Continue fields_table0 \<and>
   Render plain_writer fields_table0 = Some (header_line @ [NL]) \<and>
   block plain_writer Empty = ''Empty:'' @ [NL, TAB] @ header_line @ [NL, TAB, NL] \<and>
   block plain_writer Empty \<noteq> ''Empty:'' @ [NL, TAB] @ header_line @ [NL]"
  by code_simp

text \<open>
  C5 (as amended). Every type block written to the sink ends with exactly one final
  newline (the character before it is not a newline). When the buffered text ends with a
  newline, as it does when the last rendered table ends its last line with one, the last
  table line is followed by a line that holds a single tab character, and then by the
  final newline.
\<close>

theorem block_ending:
  assumes "node_buffer lib t = Continue b"
  shows "node lib p t = Some (p @ block lib t) \<and>
         block lib t = ReplaceAll b NL [NL, TAB] @ [NL] \<and>
         last (block lib t) = NL \<and>
         butlast (block lib t) \<noteq> [] \<and> last (butlast (block lib t)) \<noteq> NL \<and>
         (last b = NL \<longrightarrow> suffix [NL, TAB, NL] (block lib t))"
proof -
  have blk: "block lib t = ReplaceAll b NL [NL, TAB] @ [NL]"
    using assms by (simp add: block_def)
  from node_buffer_nonempty [OF assms] obtain xs x where b: "b = xs @ [x]"
    by (cases b rule: rev_cases) auto
  have bl: "butlast (block lib t) = ReplaceAll xs NL [NL, TAB] @ (if x = NL then [NL, TAB] else [x])"
    unfolding blk b ReplaceAll_snoc by (simp add: butlast_append)
  have "last b = NL \<longrightarrow> suffix [NL, TAB, NL] (block lib t)"
  proof
    assume "last b = NL"
    with b have "x = NL" by simp
    then have "block lib t = ReplaceAll xs NL [NL, TAB] @ [NL, TAB, NL]"
      unfolding blk b ReplaceAll_snoc by simp
    then show "suffix [NL, TAB, NL] (block lib t)"
      by (simp add: suffix_def)
  qed
  moreover have "butlast (block lib t) \<noteq> []" "last (butlast (block lib t)) \<noteq> NL"
    unfolding bl by simp_all
  moreover have "last (block lib t) = NL"
    unfolding blk by simp
  ultimately show ?thesis
    using blk by (simp add: node_block)
qed

theorem block_ending_witness:
  "node_buffer plain_writer Empty = Continue (''Empty:'' @ [NL] @ header_line @ [NL]) \<and>
   node plain_writer ''x'' Empty = Some (''x'' @ block plain_writer Empty) \<and>
   block plain_writer Empty =
     ReplaceAll (''Empty:'' @ [NL] @ header_line @ [NL]) NL [NL, TAB] @ [NL] \<and>
   last (block plain_writer Empty) = NL \<and>
   butlast (block plain_writer Empty) \<noteq> [] \<and>
   last (butlast (block plain_writer Empty)) \<noteq> NL \<and>
   last (''Empty:'' @ [NL] @ header_line @ [NL]) = NL \<and>
   suffix [NL, TAB, NL] (block plain_writer Empty)"
proof -
  have h: "node_buffer plain_writer Empty = Continue (''Empty:'' @ [NL] @ header_line @ [NL])"
    by code_simp
  have l: "last (''Empty:'' @ [NL] @ header_line @ [NL]) = NL"
    by simp
  from block_ending [OF h, of "''x''"] h l show ?thesis
    by blast
qed

text \<open>
  C6. For every graph, every line of the output written by \<^verbatim>\<open>Print\<close>, except the first line of
  each type block, begins with a tab character. The output is the concatenation of the
  blocks of the types, its lines are the lines of the blocks, and in each block every
  line after the first begins with a tab; the first line of a block is the type's name
  followed by a colon (when the name holds no newline).
\<close>

theorem output_lines_tabbed:
  "Print lib [] g = Some (concat (map (block lib) (Nodes g))) \<and>
   lines_of (concat (map (block lib) (Nodes g)))
     = concat (map (\<lambda>t. lines_of (block lib t)) (Nodes g)) \<and>
   (\<forall>t \<in> set (Nodes g).
      (\<forall>l \<in> set (tl (lines_of (block lib t))). l \<noteq> [] \<and> hd l = TAB) \<and>
      (block lib t \<noteq> [] \<and> NL \<notin> set (gen_Type.Name t) \<longrightarrow>
         hd (lines_of (block lib t)) = gen_Type.Name t @ '':''))"
proof (intro conjI ballI impI)
  show "Print lib [] g = Some (concat (map (block lib) (Nodes g)))"
    by (simp add: Print_blocks)
next
  have "lines_of (concat (map (block lib) (Nodes g)))
          = concat (map lines_of (map (block lib) (Nodes g)))"
    by (rule lines_of_concat) (use block_empty_or_newline [of lib] in auto)
  then show "lines_of (concat (map (block lib) (Nodes g)))
               = concat (map (\<lambda>t. lines_of (block lib t)) (Nodes g))"
    by (simp add: comp_def)
next
  fix t l
  assume "l \<in> set (tl (lines_of (block lib t)))"
  then show "l \<noteq> []" and "hd l = TAB"
    using block_lines_tabbed [of l lib t] by simp_all
next
  fix t
  assume "block lib t \<noteq> [] \<and> NL \<notin> set (gen_Type.Name t)"
  then show "hd (lines_of (block lib t)) = gen_Type.Name t @ '':''"
    by (simp add: block_first_line)
qed

theorem output_lines_tabbed_witness:
  "Print plain_writer [] \<lparr>Nodes = [Empty, Solo]\<rparr>
     = Some (concat (map (block plain_writer) (Nodes \<lparr>Nodes = [Empty, Solo]\<rparr>))) \<and>
   lines_of (concat (map (block plain_writer) (Nodes \<lparr>Nodes = [Empty, Solo]\<rparr>)))
     = concat (map (\<lambda>t. lines_of (block plain_writer t)) (Nodes \<lparr>Nodes = [Empty, Solo]\<rparr>)) \<and>
   Empty \<in> set (Nodes \<lparr>Nodes = [Empty, Solo]\<rparr>) \<and>
   lines_of (block plain_writer Empty) = [''Empty:'', TAB # header_line, [TAB]] \<and>
   TAB # header_line \<in> set (tl (lines_of (block plain_writer Empty))) \<and>
   TAB # header_line \<noteq> [] \<and> hd (TAB # header_line) = TAB \<and>
   block plain_writer Empty \<noteq> [] \<and> NL \<notin> set (gen_Type.Name Empty) \<and>
   hd (lines_of (block plain_writer Empty)) = gen_Type.Name Empty @ '':''"
proof -
  have m: "Empty \<in> set (Nodes \<lparr>Nodes = [Empty, Solo]\<rparr>)"
    by simp
  have ls: "lines_of (block plain_writer Empty) = [''Empty:'', TAB # header_line, [TAB]]"
    by code_simp
  have mem: "TAB # header_line \<in> set (tl (lines_of (block plain_writer Empty)))"
    unfolding ls by simp
  have ne: "block plain_writer Empty \<noteq> []"
    by code_simp
  have nm: "NL \<notin> set (gen_Type.Name Empty)"
    by (simp add: Empty_def)
  from output_lines_tabbed [of plain_writer "\<lparr>Nodes = [Empty, Solo]\<rparr>"] m ls mem ne nm
  show ?thesis
    by blast
qed

text \<open>
  C7. A table-building or rendering failure while processing one type (\<^verbatim>\<open>node\<close> returns
  early) does not abort the processing of the remaining types: the loop goes on with the
  next type, from the sink as the types before left it, and writes the blocks of the
  remaining types.
\<close>

theorem failure_does_not_abort:
  assumes "node_buffer lib t = Returned"
  shows "\<exists>p'. Print lib p \<lparr>Nodes = ts\<rparr> = Some p' \<and>
              node lib p' t = Some p' \<and>
              Print lib p \<lparr>Nodes = ts @ t # ts'\<rparr> = Print lib p' \<lparr>Nodes = ts'\<rparr> \<and>
              Print lib p' \<lparr>Nodes = ts'\<rparr> = Some (p' @ concat (map (block lib) ts'))"
proof -
  have blk: "block lib t = []"
    using assms by (simp add: block_def)
  show ?thesis
    by (simp add: Print_blocks node_block blk)
qed

theorem failure_does_not_abort_witness:
  "node_buffer (capped_writer 1) User = Returned \<and>
   (\<exists>p'. Print (capped_writer 1) ''x'' \<lparr>Nodes = [Empty]\<rparr> = Some p' \<and>
         node (capped_writer 1) p' User = Some p' \<and>
         Print (capped_writer 1) ''x'' \<lparr>Nodes = [Empty] @ User # [Solo]\<rparr>
           = Print (capped_writer 1) p' \<lparr>Nodes = [Solo]\<rparr> \<and>
         Print (capped_writer 1) p' \<lparr>Nodes = [Solo]\<rparr>
           = Some (p' @ concat (map (block (capped_writer 1)) [Solo]))) \<and>
   block (capped_writer 1) Solo \<noteq> []"
proof -
  have h: "node_buffer (capped_writer 1) User = Returned"
    by code_simp
  have s: "block (capped_writer 1) Solo \<noteq> []"
    by code_simp
  from failure_does_not_abort [OF h, of "''x''" "[Empty]" "[Solo]"] h s show ?thesis
    by blast
qed

text \<open>
  C8. Two invocations of \<^verbatim>\<open>Print\<close> (or \<^verbatim>\<open>Fprint\<close>) with the same graph and two separate sinks,
  whatever the sinks hold already, append the same bytes to both.
\<close>

theorem Print_deterministic:
  "\<exists>out. Print lib p1 g = Some (p1 @ out) \<and> Print lib p2 g = Some (p2 @ out) \<and>
         Fprint lib p1 g = Some (p1 @ out) \<and> Fprint lib p2 g = Some (p2 @ out)"
  by (simp add: Fprint_def Print_blocks)

theorem Print_deterministic_witness:
  "\<exists>out. Print plain_writer [] \<lparr>Nodes = [User, Solo]\<rparr> = Some ([] @ out) \<and>
         Print plain_writer ''abc'' \<lparr>Nodes = [User, Solo]\<rparr> = Some (''abc'' @ out) \<and>
         Fprint plain_writer [] \<lparr>Nodes = [User, Solo]\<rparr> = Some ([] @ out) \<and>
         Fprint plain_writer ''abc'' \<lparr>Nodes = [User, Solo]\<rparr> = Some (''abc'' @ out)"
  by (rule Print_deterministic [of plain_writer "[]" "\<lparr>Nodes = [User, Solo]\<rparr>" "''abc''"])

text \<open>
  C9. Every cell of a boolean-valued column, in the fields table (Unique, Optional,
  Nillable, Default, UpdateDefault, Immutable) and in the edges table (Inverse, Unique,
  Optional), is exactly the string \<^verbatim>\<open>true\<close> or the string \<^verbatim>\<open>false\<close>.
\<close>

theorem boolean_columns:
  assumes "fields_table lib t = Continue ftable"
    and "edges_table lib t = Continue (etable, hasEdges)"
  shows "(\<forall>r \<in> set (Rows ftable). \<forall>c < length (Header ftable).
            Header ftable ! c \<in> {''Unique'', ''Optional'', ''Nillable'', ''Default'',
                                  ''UpdateDefault'', ''Immutable''} \<longrightarrow>
            r ! c = ''true'' \<or> r ! c = ''false'') \<and>
         (\<forall>r \<in> set (Rows etable). \<forall>c < length (Header etable).
            Header etable ! c \<in> {''Inverse'', ''Unique'', ''Optional''} \<longrightarrow>
            r ! c = ''true'' \<or> r ! c = ''false'')"
proof -
  have f: "Header ftable = header" "Rows ftable = map field_row (row_source t)"
    using fields_table_Continue [OF assms(1)] by (simp_all add: fields_table0_def)
  have e: "Header etable = edges_header" "Rows etable = map edge_row (gen_Type.Edges t)"
    using edges_table_Continue [OF assms(2)] by (simp_all add: edges_table0_def)
  show ?thesis
    unfolding f e using field_row_boolean edge_row_boolean by auto
qed


theorem boolean_columns_witness:
  "fields_table plain_writer User = Continue User_table \<and>
   edges_table plain_writer User
     = Continue (edges_table0\<lparr>Rows := [[''posts'', ''Post'', ''false'', [], ''O2M'',
                                           ''false'', ''true'', []]]\<rparr>, True) \<and>
   last (Rows User_table) \<in> set (Rows User_table) \<and>
   3 < length (Header User_table) \<and>
   Header User_table ! 3 \<in> {''Unique'', ''Optional'', ''Nillable'', ''Default'',
                             ''UpdateDefault'', ''Immutable''} \<and>
   (last (Rows User_table) ! 3 = ''true'' \<or> last (Rows User_table) ! 3 = ''false'')"
proof -
  have h1: "fields_table plain_writer User = Continue User_table"
    by code_simp
  have h2: "edges_table plain_writer User
     = Continue (edges_table0\<lparr>Rows := [[''posts'', ''Post'', ''false'', [], ''O2M'',
                                           ''false'', ''true'', []]]\<rparr>, True)"
    by code_simp
  have m1: "last (Rows User_table) \<in> set (Rows User_table)"
    by code_simp
  have m2: "3 < length (Header User_table)"
    by code_simp
  have m3: "Header User_table ! 3 \<in> {''Unique'', ''Optional'', ''Nillable'', ''Default'',
                                      ''UpdateDefault'', ''Immutable''}"
    by code_simp
  from boolean_columns [OF h1 h2] m1 m2 m3
  have d: "last (Rows User_table) ! 3 = ''true'' \<or> last (Rows User_table) ! 3 = ''false''"
    by blast
  from h1 h2 m1 m2 m3 d show ?thesis
    by blast
qed

text \<open>
  C10. If appending a row fails while the fields table or the edges table is built, or
  rendering either table fails, the sink receives zero bytes for that type: \<^verbatim>\<open>node\<close> leaves
  the sink as it was.
\<close>

theorem failure_writes_nothing:
  assumes "fields_table lib t = Returned \<or>
           (\<exists>table. fields_table lib t = Continue table \<and> Render lib table = None) \<or>
           edges_table lib t = Returned \<or>
           (\<exists>table. edges_table lib t = Continue (table, True) \<and> Render lib table = None)"
  shows "node lib p t = Some p \<and> block lib t = []"
proof -
  have "node_buffer lib t = Returned"
    using assms fields_table_not_Panicked [of lib t] edges_table_not_Panicked [of lib t]
    by (auto simp: node_buffer_def split: stage.splits option.splits)
  then show ?thesis
    by (simp add: node_def block_def)
qed

theorem failure_writes_nothing_witness:
  "fields_table (capped_writer 1) User = Returned \<and>
   node (capped_writer 1) ''x'' User = Some ''x'' \<and> block (capped_writer 1) User = []"
proof -
  have h: "fields_table (capped_writer 1) User = Returned"
    by code_simp
  from failure_writes_nothing [of "capped_writer 1" User "''x''"] h show ?thesis
    by blast
qed

end
